theory Spec2Isabelle
  imports Main "HOL-Library.Word"
begin

section \<open>Data model of MemoryPool<T, BlockSize>\<close>

text \<open>
  Pointers, \<open>uintptr_t\<close> and \<open>size_t\<close> are 64-bit machine words (an LP64 target):
  \<open>+\<close> and \<open>-\<close> wrap around, \<open>mod\<close> and the comparisons are unsigned.
  The null pointer is the word \<open>0\<close>.
\<close>

type_synonym addr = "64 word"

text \<open>
  What one instantiation of the template fixes: the template argument \<open>BlockSize\<close>,
  \<open>sizeof(slot_type_)\<close>, \<open>alignof(slot_type_)\<close> and \<open>alignof(T)\<close>, where
  \<open>slot_type_\<close> is the union of a \<open>T\<close> and a \<open>Slot_*\<close>.
\<close>

record config =
  BlockSize :: addr
  sizeof_slot :: addr
  alignof_slot :: addr
  alignof_elem :: addr

text \<open>\<open>sizeof(slot_pointer_)\<close> and \<open>alignof(slot_pointer_)\<close> on the 64-bit target.\<close>

definition sizeof_ptr :: addr where
  "sizeof_ptr = 8"

definition alignof_ptr :: addr where
  "alignof_ptr = 8"

definition is_pow2 :: "addr \<Rightarrow> bool" where
  "is_pow2 a = (\<exists>k\<in>{0..<64}. a = 2 ^ k)"

text \<open>
  The facts the language guarantees about the union \<open>Slot_\<close> (alignments are powers of
  two, the union is at least as large and as aligned as each member, its size is a
  multiple of its alignment, no object is larger than \<open>PTRDIFF_MAX\<close>), and the
  \<open>static_assert(BlockSize >= 2 * sizeof(slot_type_))\<close> of the class.
\<close>

definition valid_config :: "config \<Rightarrow> bool" where
  "valid_config cfg =
     (is_pow2 (alignof_elem cfg) \<and> is_pow2 (alignof_slot cfg)
      \<and> alignof_elem cfg \<le> alignof_slot cfg
      \<and> alignof_ptr \<le> alignof_slot cfg
      \<and> sizeof_ptr \<le> sizeof_slot cfg
      \<and> sizeof_slot cfg mod alignof_slot cfg = 0
      \<and> sizeof_slot cfg < 2 ^ 63
      \<and> 2 * sizeof_slot cfg \<le> BlockSize cfg)"

text \<open>
  The four data members of the pool. The source names them with a trailing underscore
  (\<open>currentBlock_\<close>, \<open>currentSlot_\<close>, \<open>lastSlot_\<close>, \<open>freeSlots_\<close>).
\<close>

record pool =
  currentBlock :: addr
  currentSlot :: addr
  lastSlot :: addr
  freeSlots :: addr

text \<open>
  The machine a pool runs on, shared by all pools of the process.
  \<^item> \<open>next_at a\<close> is the pointer stored at address \<open>a\<close>, read as \<open>Slot_::next\<close>:
    the free-list link of a free slot, the back-reference at the head of a block.
    Accesses are pointer-granular: two accesses alias exactly when their addresses are
    equal.
  \<^item> \<open>sysnew\<close> is what the coming calls of \<open>operator new(BlockSize)\<close> answer, in order:
    \<open>Some b\<close> is a block at address \<open>b\<close>, \<open>None\<close> is \<open>std::bad_alloc\<close>.
    An exhausted list refuses every request.
  \<^item> \<open>deleted\<close> logs the calls of \<open>operator delete\<close>, \<open>dtor_calls\<close> the calls of
    \<open>~value_type()\<close>, oldest first.
\<close>

record machine =
  next_at :: "addr \<Rightarrow> addr"
  sysnew :: "addr option list"
  deleted :: "addr list"
  dtor_calls :: "addr list"

datatype error = bad_alloc

section \<open>The member functions\<close>

text \<open>\<open>padPointer\<close>: \<open>(align - result) % align\<close> on unsigned 64-bit integers.\<close>

definition padPointer :: "addr \<Rightarrow> addr \<Rightarrow> addr" where
  "padPointer p align = (align - p) mod align"

text \<open>The default constructor, and the copy constructors that delegate to it.\<close>

definition MemoryPool_default :: pool where
  "MemoryPool_default =
     \<lparr>currentBlock = 0, currentSlot = 0, lastSlot = 0, freeSlots = 0\<rparr>"

definition MemoryPool_copy :: "pool \<Rightarrow> pool" where
  "MemoryPool_copy memoryPool = MemoryPool_default"

text \<open>
  The destructor's loop over the chain of blocks: the addresses handed to
  \<open>operator delete\<close>, in order. On a cyclic chain the loop does not end, which is the
  value \<open>None\<close>.
\<close>

partial_function (option) delete_blocks :: "(addr \<Rightarrow> addr) \<Rightarrow> addr \<Rightarrow> addr list option" where
  "delete_blocks nx cur =
     (if cur \<noteq> 0
      then Option.bind (delete_blocks nx (nx cur)) (\<lambda>rest. Some (cur # rest))
      else Some [])"

definition MemoryPool_destroy :: "pool \<Rightarrow> machine \<Rightarrow> machine option" where
  "MemoryPool_destroy P M =
     map_option (\<lambda>bs. M\<lparr>deleted := deleted M @ bs\<rparr>)
       (delete_blocks (next_at M) (currentBlock P))"

text \<open>\<open>operator new(BlockSize)\<close>: the next answer of the system allocator.\<close>

definition operator_new :: "machine \<Rightarrow> addr option \<times> machine" where
  "operator_new M =
     (case sysnew M of
        [] \<Rightarrow> (None, M)
      | r # rs \<Rightarrow> (r, M\<lparr>sysnew := rs\<rparr>))"

text \<open>
  \<open>allocateBlock\<close>. A failure is returned together with the state at the point of the
  throw.
\<close>

definition allocateBlock :: "config \<Rightarrow> pool \<Rightarrow> machine \<Rightarrow> (error + unit) \<times> pool \<times> machine" where
  "allocateBlock cfg P M =
     (case operator_new M of
        (None, M1) \<Rightarrow> (Inl bad_alloc, P, M1)
      | (Some newBlock, M1) \<Rightarrow>
          (let M2 = M1\<lparr>next_at := (next_at M1)(newBlock := currentBlock P)\<rparr>;
               P1 = P\<lparr>currentBlock := newBlock\<rparr>;
               body = newBlock + sizeof_ptr;
               bodyPadding = padPointer body (alignof_slot cfg);
               P2 = P1\<lparr>currentSlot := body + bodyPadding\<rparr>;
               P3 = P2\<lparr>lastSlot := newBlock + BlockSize cfg - sizeof_slot cfg + 1\<rparr>
           in (Inr (), P3, M2)))"

text \<open>\<open>allocate(n, hint)\<close>; \<open>currentSlot_++\<close> advances the pointer by one \<open>Slot_\<close>.\<close>

definition allocate :: "config \<Rightarrow> addr \<Rightarrow> addr \<Rightarrow> pool \<Rightarrow> machine \<Rightarrow> (error + addr) \<times> pool \<times> machine" where
  "allocate cfg n hint P M =
     (if freeSlots P \<noteq> 0
      then (Inr (freeSlots P), P\<lparr>freeSlots := next_at M (freeSlots P)\<rparr>, M)
      else
        (case (if currentSlot P \<ge> lastSlot P then allocateBlock cfg P M else (Inr (), P, M)) of
           (Inl e, P1, M1) \<Rightarrow> (Inl e, P1, M1)
         | (Inr u, P1, M1) \<Rightarrow>
             (Inr (currentSlot P1), P1\<lparr>currentSlot := currentSlot P1 + sizeof_slot cfg\<rparr>, M1)))"

text \<open>\<open>deallocate(p, n)\<close>.\<close>

definition deallocate :: "addr \<Rightarrow> addr \<Rightarrow> pool \<Rightarrow> machine \<Rightarrow> pool \<times> machine" where
  "deallocate p n P M =
     (if p \<noteq> 0
      then (P\<lparr>freeSlots := p\<rparr>, M\<lparr>next_at := (next_at M)(p := freeSlots P)\<rparr>)
      else (P, M))"

text \<open>
  \<open>deleteElement(p)\<close>: the call of the element's destructor is logged, then the slot
  goes back to the pool (\<open>deallocate(p)\<close> with its default \<open>n = 1\<close>).
\<close>

definition deleteElement :: "addr \<Rightarrow> pool \<Rightarrow> machine \<Rightarrow> pool \<times> machine" where
  "deleteElement p P M =
     (if p \<noteq> 0
      then deallocate p 1 P (M\<lparr>dtor_calls := dtor_calls M @ [p]\<rparr>)
      else (P, M))"

section \<open>Clients and the system allocator\<close>

text \<open>
  What the caller of \<open>padPointer\<close> needs of its result, in the words of the
  specification: the offset brings the address to a multiple of the alignment, and no
  smaller offset does. Addresses and offsets are read as natural numbers.
\<close>

definition smallest_offset :: "addr \<Rightarrow> addr \<Rightarrow> addr \<Rightarrow> bool" where
  "smallest_offset p align off =
     ((unat p + unat off) mod unat align = 0
      \<and> (\<forall>k\<in>{0..<unat off}. (unat p + k) mod unat align \<noteq> 0))"

text \<open>
  What \<open>operator new(BlockSize)\<close> promises about a block it returns: the address is not
  null, it is aligned for a pointer, and the block ends inside the address space.
  Two blocks that are allocated at the same time do not overlap.
\<close>

definition block_ok :: "config \<Rightarrow> addr \<Rightarrow> bool" where
  "block_ok cfg b =
     (b \<noteq> 0 \<and> b mod alignof_ptr = 0 \<and> unat b + unat (BlockSize cfg) < 2 ^ 64)"

definition blocks_apart :: "config \<Rightarrow> addr \<Rightarrow> addr \<Rightarrow> bool" where
  "blocks_apart cfg b b' =
     (unat b + unat (BlockSize cfg) \<le> unat b' \<or> unat b' + unat (BlockSize cfg) \<le> unat b)"

fun fresh_blocks :: "config \<Rightarrow> addr list \<Rightarrow> bool" where
  "fresh_blocks cfg [] = True"
| "fresh_blocks cfg (b # bs) =
     (block_ok cfg b \<and> (\<forall>b'\<in>set bs. blocks_apart cfg b b') \<and> fresh_blocks cfg bs)"

fun blocks_of :: "addr option list \<Rightarrow> addr list" where
  "blocks_of [] = []"
| "blocks_of (None # rs) = blocks_of rs"
| "blocks_of (Some b # rs) = b # blocks_of rs"

definition sysnew_ok :: "config \<Rightarrow> addr option list \<Rightarrow> bool" where
  "sysnew_ok cfg rs = fresh_blocks cfg (blocks_of rs)"

text \<open>
  A client of one pool. \<open>live\<close> are the addresses \<open>allocate\<close> has returned and the
  client has not given back, \<open>returned\<close> all addresses \<open>allocate\<close> has returned, both
  newest first. The client calls \<open>allocate()\<close> (and goes on after a \<open>bad_alloc\<close>), calls
  \<open>deallocate(p)\<close> with the null pointer or a live address, and stores pointer-sized
  values that lie inside one of its live slots. Anything else is undefined behaviour,
  the value \<open>None\<close>.
\<close>

datatype op = Alloc | Free addr | Write addr addr

record client =
  cpool :: pool
  cmach :: machine
  live :: "addr list"
  returned :: "addr list"

definition in_live_slot :: "config \<Rightarrow> addr list \<Rightarrow> addr \<Rightarrow> bool" where
  "in_live_slot cfg L a =
     (\<exists>p\<in>set L. unat p \<le> unat a
        \<and> unat a + unat sizeof_ptr \<le> unat p + unat (sizeof_slot cfg))"

fun step :: "config \<Rightarrow> op \<Rightarrow> client \<Rightarrow> client option" where
  "step cfg Alloc c =
     (case allocate cfg 1 0 (cpool c) (cmach c) of
        (Inl e, P, M) \<Rightarrow> Some (c\<lparr>cpool := P, cmach := M\<rparr>)
      | (Inr a, P, M) \<Rightarrow>
          Some (c\<lparr>cpool := P, cmach := M, live := a # live c, returned := a # returned c\<rparr>))"
| "step cfg (Free p) c =
     (if p = 0 then
        (case deallocate p 1 (cpool c) (cmach c) of
           (P, M) \<Rightarrow> Some (c\<lparr>cpool := P, cmach := M\<rparr>))
      else if p \<in> set (live c) then
        (case deallocate p 1 (cpool c) (cmach c) of
           (P, M) \<Rightarrow> Some (c\<lparr>cpool := P, cmach := M, live := remove1 p (live c)\<rparr>))
      else None)"
| "step cfg (Write a v) c =
     (if in_live_slot cfg (live c) a
      then Some (c\<lparr>cmach := (cmach c)\<lparr>next_at := (next_at (cmach c))(a := v)\<rparr>\<rparr>)
      else None)"

fun run :: "config \<Rightarrow> op list \<Rightarrow> client \<Rightarrow> client option" where
  "run cfg [] c = Some c"
| "run cfg (x # xs) c =
     (case step cfg x c of None \<Rightarrow> None | Some c' \<Rightarrow> run cfg xs c')"

text \<open>
  A client with a freshly constructed pool, on a machine with the given memory contents
  and the given answers of the system allocator.
\<close>

definition start :: "(addr \<Rightarrow> addr) \<Rightarrow> addr option list \<Rightarrow> client" where
  "start nx rs =
     \<lparr>cpool = MemoryPool_default,
      cmach = \<lparr>next_at = nx, sysnew = rs, deleted = [], dtor_calls = []\<rparr>,
      live = [], returned = []\<rparr>"

text \<open>Two slots that do not overlap: their addresses are a slot size or more apart.\<close>

definition apart :: "config \<Rightarrow> addr \<Rightarrow> addr \<Rightarrow> bool" where
  "apart cfg a a' =
     (unat a + unat (sizeof_slot cfg) \<le> unat a' \<or> unat a' + unat (sizeof_slot cfg) \<le> unat a)"

text \<open>
  The layout \<open>allocateBlock\<close> gives a block at address \<open>b\<close>: the address of its first
  slot, the value of the limit cursor, and the number of whole slots that fit behind
  the leading pointer and the body padding.
\<close>

definition first_slot :: "config \<Rightarrow> addr \<Rightarrow> addr" where
  "first_slot cfg b = b + sizeof_ptr + padPointer (b + sizeof_ptr) (alignof_slot cfg)"

definition limit_slot :: "config \<Rightarrow> addr \<Rightarrow> addr" where
  "limit_slot cfg b = b + BlockSize cfg - sizeof_slot cfg + 1"

definition slots_per_block :: "config \<Rightarrow> addr \<Rightarrow> nat" where
  "slots_per_block cfg b =
     (unat (BlockSize cfg) - unat sizeof_ptr - unat (padPointer (b + sizeof_ptr) (alignof_slot cfg)))
       div unat (sizeof_slot cfg)"

text \<open>A slot at address \<open>a\<close> lies in the block at \<open>b\<close>, behind its leading pointer.\<close>

definition in_block :: "config \<Rightarrow> addr \<Rightarrow> addr \<Rightarrow> bool" where
  "in_block cfg b a =
     (unat b + unat sizeof_ptr \<le> unat a
      \<and> unat a + unat (sizeof_slot cfg) \<le> unat b + unat (BlockSize cfg))"

text \<open>The free list that starts at \<open>h\<close> consists of the slots \<open>fl\<close>, in this order.\<close>

fun chain :: "(addr \<Rightarrow> addr) \<Rightarrow> addr \<Rightarrow> addr list \<Rightarrow> bool" where
  "chain nx h [] = (h = 0)"
| "chain nx h (x # xs) = (h = x \<and> x \<noteq> 0 \<and> chain nx (nx x) xs)"

text \<open>
  The invariant of a client's pool. \<open>bs\<close> are the blocks the pool has acquired, oldest
  first, \<open>fl\<close> the slots on its free list, and \<open>S\<close> all slots handed out so far (live or
  free): each lies in an acquired block and is aligned, no two overlap, and those in the
  current block lie below the bump cursor.
\<close>

definition cursor_inv :: "config \<Rightarrow> addr list \<Rightarrow> addr set \<Rightarrow> pool \<Rightarrow> bool" where
  "cursor_inv cfg bs S P =
     (if bs = [] then lastSlot P \<le> currentSlot P
      else currentBlock P = last bs
        \<and> lastSlot P = limit_slot cfg (last bs)
        \<and> unat (last bs) + unat sizeof_ptr \<le> unat (currentSlot P)
        \<and> unat (currentSlot P) \<le> unat (last bs) + unat (BlockSize cfg)
        \<and> unat (currentSlot P) mod unat (alignof_slot cfg) = 0
        \<and> (\<forall>a\<in>S. in_block cfg (last bs) a \<longrightarrow>
              unat a + unat (sizeof_slot cfg) \<le> unat (currentSlot P)))"

definition slots_inv :: "config \<Rightarrow> addr list \<Rightarrow> addr set \<Rightarrow> pool \<Rightarrow> bool" where
  "slots_inv cfg bs S P =
     ((\<forall>a\<in>S. (\<exists>b\<in>set bs. in_block cfg b a) \<and> unat a mod unat (alignof_slot cfg) = 0)
      \<and> (\<forall>a\<in>S. \<forall>a'\<in>S. a \<noteq> a' \<longrightarrow> apart cfg a a')
      \<and> cursor_inv cfg bs S P)"

definition pool_inv :: "config \<Rightarrow> addr list \<Rightarrow> addr list \<Rightarrow> client \<Rightarrow> bool" where
  "pool_inv cfg bs fl c =
     (chain (next_at (cmach c)) (freeSlots (cpool c)) fl
      \<and> distinct (live c @ fl)
      \<and> slots_inv cfg bs (set (live c) \<union> set fl) (cpool c)
      \<and> (\<forall>a\<in>set (returned c). unat a mod unat (alignof_slot cfg) = 0)
      \<and> fresh_blocks cfg (bs @ blocks_of (sysnew (cmach c))))"

text \<open>The address of slot number \<open>i\<close> of the block at \<open>b\<close>.\<close>

definition slot_at :: "config \<Rightarrow> addr \<Rightarrow> nat \<Rightarrow> addr" where
  "slot_at cfg b i = first_slot cfg b + of_nat i * sizeof_slot cfg"

section \<open>An example: MemoryPool<int>\<close>

text \<open>
  \<open>MemoryPool<int, 4096>\<close> on the 64-bit target, and a client that has allocated two
  slots from a block at address 4096 and has given the first one back.
\<close>

definition cfg_int :: config where
  "cfg_int = \<lparr>BlockSize = 4096, sizeof_slot = 8, alignof_slot = 8, alignof_elem = 4\<rparr>"

definition mem0 :: "addr \<Rightarrow> addr" where
  "mem0 a = 0"

definition client_A :: client where
  "client_A =
     \<lparr>cpool = \<lparr>currentBlock = 4096, currentSlot = 4120, lastSlot = 8185, freeSlots = 4104\<rparr>,
      cmach = \<lparr>next_at = mem0(4096 := 0, 4104 := 0), sysnew = [Some 12288],
               deleted = [], dtor_calls = []\<rparr>,
      live = [4112], returned = [4112, 4104]\<rparr>"

text \<open>The same client after three allocations and no deallocation.\<close>

definition client_B :: client where
  "client_B =
     \<lparr>cpool = \<lparr>currentBlock = 4096, currentSlot = 4128, lastSlot = 8185, freeSlots = 0\<rparr>,
      cmach = \<lparr>next_at = mem0(4096 := 0), sysnew = [Some 12288],
               deleted = [], dtor_calls = []\<rparr>,
      live = [4120, 4112, 4104], returned = [4120, 4112, 4104]\<rparr>"

text \<open>A pool whose blocks of 32 bytes hold three slots of 8 bytes each.\<close>

definition cfg_small :: config where
  "cfg_small = \<lparr>BlockSize = 32, sizeof_slot = 8, alignof_slot = 8, alignof_elem = 8\<rparr>"

section \<open>padPointer\<close>

lemma uint_pow2: "k < 64 \<Longrightarrow> uint ((2::addr) ^ k) = 2 ^ k"
proof -
  assume k: "k < 64"
  then have "(2::addr) ^ k \<noteq> 0" by simp
  then have "0 < (2::addr) ^ k" unfolding word_neq_0_conv .
  then show ?thesis by (rule uint_2p)
qed

lemma unat_pow2: "k < 64 \<Longrightarrow> unat ((2::addr) ^ k) = 2 ^ k"
  using uint_pow2[of k] by (simp add: unat_eq_nat_uint)

lemma uint_padPointer:
  assumes "is_pow2 al"
  shows "uint (padPointer p al) = (uint al - uint p) mod uint al"
proof -
  from assms obtain k where k: "k < 64" "al = 2 ^ k"
    by (auto simp: is_pow2_def)
  have al: "uint al = 2 ^ k" using k by (simp add: uint_pow2)
  have dv: "(2::int) ^ k dvd 2 ^ LENGTH(64)" using k by (intro le_imp_power_dvd) simp
  have "uint (padPointer p al) = ((uint al - uint p) mod 2 ^ LENGTH(64)) mod uint al"
    unfolding padPointer_def uint_mod_distrib uint_word_ariths ..
  also have "\<dots> = (uint al - uint p) mod uint al"
    unfolding al using dv by (rule mod_mod_cancel)
  finally show ?thesis .
qed

lemma unat_padPointer:
  assumes "is_pow2 al"
  shows "(unat p + unat (padPointer p al)) mod unat al = 0"
    and "unat (padPointer p al) < unat al"
proof -
  from assms obtain k where k: "k < 64" "al = 2 ^ k"
    by (auto simp: is_pow2_def)
  have al: "uint al = 2 ^ k" using k by (simp add: uint_pow2)
  have pos: "0 < uint al" by (simp add: al)
  have "(uint p + uint (padPointer p al)) mod uint al = (uint p + (uint al - uint p)) mod uint al"
    unfolding uint_padPointer[OF assms] by (simp add: mod_add_right_eq)
  also have "\<dots> = 0" by simp
  finally have "(uint p + uint (padPointer p al)) mod uint al = 0" .
  then have "int ((unat p + unat (padPointer p al)) mod unat al) = 0"
    by (simp add: zmod_int)
  then show "(unat p + unat (padPointer p al)) mod unat al = 0" by simp
  have "uint (padPointer p al) < uint al"
    unfolding uint_padPointer[OF assms] using pos by simp
  then show "unat (padPointer p al) < unat al"
    by (simp add: word_less_nat_alt[symmetric] word_less_def)
qed

lemma least_offset:
  fixes p a off k :: nat
  assumes "(p + off) mod a = 0" "off < a" "k < off"
  shows "(p + k) mod a \<noteq> 0"
proof
  assume "(p + k) mod a = 0"
  then have "a dvd p + k" by auto
  moreover from assms(1) have "a dvd p + off" by auto
  ultimately have "a dvd (p + off) - (p + k)" by (rule dvd_diff_nat[rotated])
  then have "a dvd off - k" by simp
  moreover have "0 < off - k" "off - k < a" using assms by auto
  ultimately show False by (auto dest: dvd_imp_le)
qed

text \<open>
  C8: for every address \<open>p\<close> and every alignment value \<open>align\<close> (a power of two, as
  every value of \<open>alignof\<close> is, and \<open>alignof(slot_type_)\<close> is the only argument the
  class passes), \<open>padPointer p align\<close> is the smallest offset that brings \<open>p\<close> to a
  multiple of \<open>align\<close>, and it is \<open>(align - p) mod align\<close> computed on the integers.
\<close>

theorem padPointer_smallest:
  "is_pow2 align \<Longrightarrow>
     smallest_offset p align (padPointer p align)
     \<and> uint (padPointer p align) = (uint align - uint p) mod uint align"
  unfolding smallest_offset_def
  using unat_padPointer[of align p] least_offset[of "unat p" "unat (padPointer p align)" "unat align"]
  by (auto simp: uint_padPointer)

theorem padPointer_smallest_witness:
  "is_pow2 8 \<and> smallest_offset 13 8 (padPointer 13 8)
     \<and> uint (padPointer 13 8) = (uint (8::addr) - uint (13::addr)) mod uint (8::addr)"
proof -
  have h: "is_pow2 8" unfolding is_pow2_def by code_simp
  show ?thesis using h padPointer_smallest[OF h, of 13] by simp
qed

section \<open>Single calls\<close>

lemma client_A_reached:
  "run cfg_int [Alloc, Alloc, Free 4104] (start mem0 [Some 4096, Some 12288]) = Some client_A"
  by (simp add: start_def cfg_int_def client_A_def allocate_def allocateBlock_def
      operator_new_def deallocate_def MemoryPool_default_def padPointer_def sizeof_ptr_def Let_def)

lemma delete_blocks_null: "delete_blocks nx 0 = Some []"
  by (subst delete_blocks.simps) simp

text \<open>
  C3: when \<open>operator new\<close> refuses the block that \<open>allocate\<close> needs, \<open>allocate\<close> fails
  with \<open>bad_alloc\<close> and leaves the four cursors and the memory as they were; and every
  failure of \<open>allocate\<close> is of this kind, so a call either returns an address or changes
  nothing of the pool.
\<close>

theorem allocate_failure_atomic:
  "(freeSlots P = 0 \<and> lastSlot P \<le> currentSlot P \<and> fst (operator_new M) = None \<longrightarrow>
      allocate cfg n hint P M = (Inl bad_alloc, P, snd (operator_new M))
      \<and> next_at (snd (operator_new M)) = next_at M)
   \<and> (\<forall>e P' M'. allocate cfg n hint P M = (Inl e, P', M') \<longrightarrow>
        P' = P \<and> next_at M' = next_at M \<and> freeSlots P = 0 \<and> lastSlot P \<le> currentSlot P
        \<and> fst (operator_new M) = None)"
  by (auto simp: allocate_def allocateBlock_def operator_new_def Let_def
      split: prod.splits sum.splits list.splits option.splits if_splits)

theorem allocate_failure_atomic_witness:
  "allocate cfg_int 1 0 MemoryPool_default (cmach (start mem0 [None]))
     = (Inl bad_alloc, MemoryPool_default, cmach (start mem0 []))"
  using allocate_failure_atomic[of MemoryPool_default "cmach (start mem0 [None])" cfg_int 1 0]
  by (simp add: MemoryPool_default_def start_def operator_new_def)

text \<open>
  C9: \<open>deallocate\<close> and \<open>deleteElement\<close> of the null pointer change neither the pool nor
  the machine; in particular no destructor call is logged.
\<close>

theorem deallocate_null_noop:
  "deallocate 0 n P M = (P, M) \<and> deleteElement 0 P M = (P, M)"
  by (simp add: deallocate_def deleteElement_def)

text \<open>
  C10: the result of \<open>allocate\<close> and the state it leaves do not depend on \<open>n\<close> and
  \<open>hint\<close>.
\<close>

theorem allocate_ignores_n_hint:
  "allocate cfg n hint P M = allocate cfg n' hint' P M"
  by (simp add: allocate_def)

section \<open>Configurations and blocks\<close>

lemma unat_plus_no_wrap:
  "unat (x::addr) + unat y < 2 ^ 64 \<Longrightarrow> unat (x + y) = unat x + unat y"
  using unat_add_lem[of x y] by simp

lemma is_pow2_unat: "is_pow2 a \<Longrightarrow> \<exists>k<64. unat a = 2 ^ k"
  unfolding is_pow2_def by (auto simp: unat_pow2)

lemma pow2_dvd_of_le:
  fixes j k :: nat
  assumes "(2::nat) ^ j \<le> 2 ^ k"
  shows "(2::nat) ^ j dvd 2 ^ k"
proof -
  have "j \<le> k" using assms by (simp add: power_increasing_iff)
  then show ?thesis by (rule le_imp_power_dvd)
qed

lemma is_pow2_le_dvd:
  assumes "is_pow2 a" "is_pow2 b" "a \<le> b"
  shows "unat a dvd unat b"
proof -
  from assms(1) obtain j where j: "unat a = 2 ^ j" by (auto dest: is_pow2_unat)
  from assms(2) obtain k where k: "unat b = 2 ^ k" by (auto dest: is_pow2_unat)
  from assms(3) have "unat a \<le> unat b" by (simp add: word_le_nat_alt)
  then show ?thesis unfolding j k by (rule pow2_dvd_of_le)
qed

lemma is_pow2_8: "is_pow2 8"
  unfolding is_pow2_def by code_simp

lemma valid_config_nat:
  assumes "valid_config cfg"
  shows "8 \<le> unat (sizeof_slot cfg)"
    and "8 dvd unat (alignof_slot cfg)"
    and "unat (alignof_slot cfg) dvd unat (sizeof_slot cfg)"
    and "0 < unat (alignof_slot cfg)"
    and "unat (alignof_slot cfg) \<le> unat (sizeof_slot cfg)"
    and "2 * unat (sizeof_slot cfg) \<le> unat (BlockSize cfg)"
    and "unat (alignof_elem cfg) dvd unat (alignof_slot cfg)"
proof -
  from assms have pa: "is_pow2 (alignof_slot cfg)" and pe: "is_pow2 (alignof_elem cfg)"
    and le: "alignof_elem cfg \<le> alignof_slot cfg" and l8: "8 \<le> alignof_slot cfg"
    and s8: "8 \<le> sizeof_slot cfg" and md: "sizeof_slot cfg mod alignof_slot cfg = 0"
    and lt: "sizeof_slot cfg < 2 ^ 63" and sa: "2 * sizeof_slot cfg \<le> BlockSize cfg"
    by (simp_all add: valid_config_def alignof_ptr_def sizeof_ptr_def)
  show s8n: "8 \<le> unat (sizeof_slot cfg)"
    using s8 by (simp add: word_le_nat_alt)
  show "8 dvd unat (alignof_slot cfg)"
    using is_pow2_le_dvd[OF is_pow2_8 pa l8] by simp
  show "unat (alignof_elem cfg) dvd unat (alignof_slot cfg)"
    using pe pa le by (rule is_pow2_le_dvd)
  show pos: "0 < unat (alignof_slot cfg)"
    using is_pow2_unat[OF pa] by auto
  have "unat (sizeof_slot cfg) mod unat (alignof_slot cfg) = 0"
    using md by (metis unat_mod unat_0)
  then show dv: "unat (alignof_slot cfg) dvd unat (sizeof_slot cfg)" by auto
  show "unat (alignof_slot cfg) \<le> unat (sizeof_slot cfg)"
    using dv s8n by (auto dest: dvd_imp_le)
  have "unat (sizeof_slot cfg) < 2 ^ 63"
    using lt by (simp add: word_less_nat_alt)
  then have "unat (2 * sizeof_slot cfg) = 2 * unat (sizeof_slot cfg)"
    by (simp add: unat_word_ariths)
  then show "2 * unat (sizeof_slot cfg) \<le> unat (BlockSize cfg)"
    using sa by (simp add: word_le_nat_alt)
qed

lemma block_ok_nat:
  assumes "block_ok cfg b"
  shows "0 < unat b" and "8 dvd unat b" and "unat b + unat (BlockSize cfg) < 2 ^ 64"
proof -
  from assms have nz: "b \<noteq> 0" and md: "b mod 8 = 0" and "unat b + unat (BlockSize cfg) < 2 ^ 64"
    by (simp_all add: block_ok_def alignof_ptr_def)
  then show "unat b + unat (BlockSize cfg) < 2 ^ 64" by simp
  show "0 < unat b" using nz by (simp add: unat_gt_0)
  have "unat b mod unat (8::addr) = 0" using md by (metis unat_mod unat_0)
  then show "8 dvd unat b" by auto
qed

lemma first_slot_nat:
  assumes vc: "valid_config cfg" and bo: "block_ok cfg b"
  shows "unat (first_slot cfg b)
           = unat b + 8 + unat (padPointer (b + sizeof_ptr) (alignof_slot cfg))"
    and "unat (first_slot cfg b) mod unat (alignof_slot cfg) = 0"
    and "unat (first_slot cfg b) \<le> unat b + unat (alignof_slot cfg)"
proof -
  let ?al = "unat (alignof_slot cfg)"
  let ?pad = "unat (padPointer (b + sizeof_ptr) (alignof_slot cfg))"
  note c = valid_config_nat[OF vc]
  note k = block_ok_nat[OF bo]
  have pa: "is_pow2 (alignof_slot cfg)" using vc by (simp add: valid_config_def)
  have body: "unat (b + sizeof_ptr) = unat b + 8"
    unfolding sizeof_ptr_def using c(1,6) k(3) by (subst unat_plus_no_wrap) simp_all
  have m: "(unat b + 8 + ?pad) mod ?al = 0" and lt: "?pad < ?al"
    using unat_padPointer[OF pa, of "b + sizeof_ptr"] by (simp_all add: body)
  have "?al dvd unat b + 8 + ?pad" using m by auto
  then have "8 dvd unat b + 8 + ?pad" using c(2) by (rule dvd_trans[rotated])
  then have "8 dvd ?pad" using k(2) by (simp add: dvd_add_right_iff)
  then have "8 dvd ?al - ?pad" using c(2) by (rule dvd_diff_nat[rotated])
  moreover have "0 < ?al - ?pad" using lt by simp
  ultimately have "8 \<le> ?al - ?pad" by (auto dest: dvd_imp_le)
  then have le: "?pad + 8 \<le> ?al" using lt by simp
  have "unat (first_slot cfg b) = unat (b + sizeof_ptr) + ?pad"
    unfolding first_slot_def using le c(5,6) k(3) body
    by (subst unat_plus_no_wrap) simp_all
  then show f: "unat (first_slot cfg b) = unat b + 8 + ?pad" by (simp add: body)
  show "unat (first_slot cfg b) mod ?al = 0" using m f by simp
  show "unat (first_slot cfg b) \<le> unat b + ?al" using f le by simp
qed

lemma limit_slot_nat:
  assumes vc: "valid_config cfg" and bo: "block_ok cfg b"
  shows "unat (limit_slot cfg b) = unat b + unat (BlockSize cfg) - unat (sizeof_slot cfg) + 1"
proof -
  note c = valid_config_nat[OF vc]
  note k = block_ok_nat[OF bo]
  have e: "unat (b + BlockSize cfg) = unat b + unat (BlockSize cfg)"
    using k(3) by (rule unat_plus_no_wrap)
  have "sizeof_slot cfg \<le> b + BlockSize cfg"
    using c(6) by (simp add: word_le_nat_alt e)
  then have s: "unat (b + BlockSize cfg - sizeof_slot cfg)
      = unat b + unat (BlockSize cfg) - unat (sizeof_slot cfg)"
    by (simp add: unat_sub e)
  have "unat (b + BlockSize cfg - sizeof_slot cfg + 1)
      = unat (b + BlockSize cfg - sizeof_slot cfg) + unat (1::addr)"
    using s c(1,6) k(3) by (subst unat_plus_no_wrap) simp_all
  then show ?thesis by (simp add: limit_slot_def s)
qed

lemma first_slot_in_block:
  assumes vc: "valid_config cfg" and bo: "block_ok cfg b"
  shows "in_block cfg b (first_slot cfg b)"
  using first_slot_nat[OF vc bo] valid_config_nat[OF vc]
  by (simp add: in_block_def sizeof_ptr_def)

lemma below_limit_iff:
  assumes vc: "valid_config cfg" and bo: "block_ok cfg b"
  shows "a < limit_slot cfg b
     \<longleftrightarrow> unat a + unat (sizeof_slot cfg) \<le> unat b + unat (BlockSize cfg)"
  using valid_config_nat[OF vc]
  by (auto simp: word_less_nat_alt limit_slot_nat[OF vc bo])

lemma first_slot_below_limit:
  assumes vc: "valid_config cfg" and bo: "block_ok cfg b"
  shows "first_slot cfg b < limit_slot cfg b"
  using first_slot_in_block[OF vc bo]
  by (simp add: below_limit_iff[OF vc bo] in_block_def)

section \<open>The invariant\<close>

lemma blocks_apart_sym: "blocks_apart cfg b b' \<Longrightarrow> blocks_apart cfg b' b"
  by (auto simp: blocks_apart_def)

lemma fresh_blocks_append:
  "fresh_blocks cfg (xs @ ys) \<longleftrightarrow>
     fresh_blocks cfg xs \<and> fresh_blocks cfg ys
     \<and> (\<forall>x\<in>set xs. \<forall>y\<in>set ys. blocks_apart cfg x y)"
  by (induction xs) auto

lemma fresh_blocks_ok: "fresh_blocks cfg xs \<Longrightarrow> x \<in> set xs \<Longrightarrow> block_ok cfg x"
  by (induction xs) auto

lemma fresh_blocks_apart:
  "fresh_blocks cfg xs \<Longrightarrow> x \<in> set xs \<Longrightarrow> y \<in> set xs \<Longrightarrow> x \<noteq> y \<Longrightarrow> blocks_apart cfg x y"
  by (induction xs) (auto intro: blocks_apart_sym)

lemma in_blocks_apart:
  "in_block cfg b a \<Longrightarrow> in_block cfg b' a' \<Longrightarrow> blocks_apart cfg b b' \<Longrightarrow> apart cfg a a'"
  by (auto simp: in_block_def blocks_apart_def apart_def)

lemma apart_sym: "apart cfg a a' \<Longrightarrow> apart cfg a' a"
  by (auto simp: apart_def)

lemma apart_neq: "0 < unat (sizeof_slot cfg) \<Longrightarrow> apart cfg a a' \<Longrightarrow> a \<noteq> a'"
  by (auto simp: apart_def)

lemma in_block_nonnull: "in_block cfg b a \<Longrightarrow> a \<noteq> 0"
  by (auto simp: in_block_def sizeof_ptr_def)

lemma slots_inv_freeSlots [simp]:
  "slots_inv cfg bs S (P\<lparr>freeSlots := h\<rparr>) = slots_inv cfg bs S P"
  by (simp add: slots_inv_def cursor_inv_def)

lemma slots_inv_bump:
  assumes vc: "valid_config cfg"
    and fr: "fresh_blocks cfg (bs @ r)"
    and inv: "slots_inv cfg bs S P"
    and lt: "currentSlot P < lastSlot P"
  shows "currentSlot P \<notin> S"
    and "unat (currentSlot P) mod unat (alignof_slot cfg) = 0"
    and "slots_inv cfg bs (insert (currentSlot P) S)
           (P\<lparr>currentSlot := currentSlot P + sizeof_slot cfg\<rparr>)"
proof -
  let ?ss = "unat (sizeof_slot cfg)"
  let ?cs = "currentSlot P"
  note c = valid_config_nat[OF vc]
  have ne: "bs \<noteq> []"
    using inv lt by (auto simp: slots_inv_def cursor_inv_def)
  let ?cb = "last bs"
  have cbs: "?cb \<in> set bs" using ne by simp
  have fbs: "fresh_blocks cfg bs" using fr by (simp add: fresh_blocks_append)
  have bo: "block_ok cfg ?cb" using fbs cbs by (rule fresh_blocks_ok)
  note k = block_ok_nat[OF bo]
  from inv ne have ls: "lastSlot P = limit_slot cfg ?cb"
    and lo: "unat ?cb + unat sizeof_ptr \<le> unat ?cs"
    and al: "unat ?cs mod unat (alignof_slot cfg) = 0"
    and below: "\<forall>a\<in>S. in_block cfg ?cb a \<longrightarrow> unat a + ?ss \<le> unat ?cs"
    and blk: "\<forall>a\<in>S. (\<exists>b\<in>set bs. in_block cfg b a) \<and> unat a mod unat (alignof_slot cfg) = 0"
    and pw: "\<forall>a\<in>S. \<forall>a'\<in>S. a \<noteq> a' \<longrightarrow> apart cfg a a'"
    by (simp_all add: slots_inv_def cursor_inv_def)
  have hi: "unat ?cs + ?ss \<le> unat ?cb + unat (BlockSize cfg)"
    using lt ls by (simp add: below_limit_iff[OF vc bo])
  have inb: "in_block cfg ?cb ?cs" using lo hi by (simp add: in_block_def)
  have ap: "apart cfg a ?cs" if "a \<in> S" for a
  proof -
    from blk that obtain b where b: "b \<in> set bs" "in_block cfg b a" by blast
    show ?thesis
    proof (cases "b = ?cb")
      case True
      then show ?thesis using below that b by (auto simp: apart_def)
    next
      case False
      then have "blocks_apart cfg b ?cb" using fbs b(1) cbs by (intro fresh_blocks_apart)
      then show ?thesis using b(2) inb by (intro in_blocks_apart)
    qed
  qed
  have pos: "0 < ?ss" using c(1) by simp
  show "?cs \<notin> S" using ap apart_neq[OF pos] by blast
  show "unat ?cs mod unat (alignof_slot cfg) = 0" by (rule al)
  have nw: "unat (?cs + sizeof_slot cfg) = unat ?cs + ?ss"
    using hi k(3) by (intro unat_plus_no_wrap) simp
  have al': "unat (?cs + sizeof_slot cfg) mod unat (alignof_slot cfg) = 0"
    using al c(3) by (simp add: nw mod_add_eq[symmetric] dvd_eq_mod_eq_0 del: mod_add_eq)
  have c1: "\<forall>a\<in>insert ?cs S. (\<exists>b\<in>set bs. in_block cfg b a)
       \<and> unat a mod unat (alignof_slot cfg) = 0"
    using blk inb cbs al by auto
  have c2: "\<forall>a\<in>insert ?cs S. \<forall>a'\<in>insert ?cs S. a \<noteq> a' \<longrightarrow> apart cfg a a'"
    using pw ap by (auto intro: apart_sym)
  have c3: "cursor_inv cfg bs (insert ?cs S) (P\<lparr>currentSlot := ?cs + sizeof_slot cfg\<rparr>)"
    using inv ne lo hi al' below by (auto simp: slots_inv_def cursor_inv_def nw)
  show "slots_inv cfg bs (insert ?cs S) (P\<lparr>currentSlot := ?cs + sizeof_slot cfg\<rparr>)"
    unfolding slots_inv_def using c1 c2 c3 by blast
qed

lemma slots_inv_grow:
  assumes vc: "valid_config cfg"
    and fr: "fresh_blocks cfg (bs @ nb # r)"
    and inv: "slots_inv cfg bs S P"
  shows "first_slot cfg nb \<notin> S"
    and "nb \<notin> S"
    and "unat (first_slot cfg nb) mod unat (alignof_slot cfg) = 0"
    and "slots_inv cfg (bs @ [nb]) (insert (first_slot cfg nb) S)
           (P\<lparr>currentBlock := nb,
              currentSlot := first_slot cfg nb + sizeof_slot cfg,
              lastSlot := limit_slot cfg nb\<rparr>)"
proof -
  let ?ss = "unat (sizeof_slot cfg)"
  let ?f = "first_slot cfg nb"
  note c = valid_config_nat[OF vc]
  have bo: "block_ok cfg nb" using fr by (simp add: fresh_blocks_append)
  have far: "\<forall>b\<in>set bs. blocks_apart cfg b nb" using fr by (simp add: fresh_blocks_append)
  note k = block_ok_nat[OF bo]
  note f = first_slot_nat[OF vc bo]
  have inb: "in_block cfg nb ?f" using vc bo by (rule first_slot_in_block)
  from inv have blk: "\<forall>a\<in>S. (\<exists>b\<in>set bs. in_block cfg b a)
        \<and> unat a mod unat (alignof_slot cfg) = 0"
    and pw: "\<forall>a\<in>S. \<forall>a'\<in>S. a \<noteq> a' \<longrightarrow> apart cfg a a'"
    by (simp_all add: slots_inv_def)
  have old: "\<exists>b\<in>set bs. in_block cfg b a \<and> blocks_apart cfg b nb" if "a \<in> S" for a
    using blk far that by blast
  have ap: "apart cfg a ?f" if "a \<in> S" for a
    using old[OF that] inb by (auto intro: in_blocks_apart)
  have pos: "0 < ?ss" using c(1) by simp
  show "?f \<notin> S" using ap apart_neq[OF pos] by blast
  show "nb \<notin> S"
  proof
    assume "nb \<in> S"
    from old[OF this] obtain b where "in_block cfg b nb" "blocks_apart cfg b nb" by blast
    then show False using c(1,6) by (auto simp: in_block_def blocks_apart_def sizeof_ptr_def)
  qed
  show al: "unat ?f mod unat (alignof_slot cfg) = 0" by (rule f(2))
  have notin: "\<not> in_block cfg nb a" if "a \<in> S" for a
  proof
    assume "in_block cfg nb a"
    moreover from old[OF that] obtain b where "in_block cfg b a" "blocks_apart cfg b nb" by blast
    ultimately show False using c(1,6)
      by (auto simp: in_block_def blocks_apart_def sizeof_ptr_def)
  qed
  have hi: "unat ?f + ?ss \<le> unat nb + unat (BlockSize cfg)"
    using inb by (simp add: in_block_def)
  have nw: "unat (?f + sizeof_slot cfg) = unat ?f + ?ss"
    using hi k(3) by (intro unat_plus_no_wrap) simp
  have al': "unat (?f + sizeof_slot cfg) mod unat (alignof_slot cfg) = 0"
    using al c(3) by (simp add: nw mod_add_eq[symmetric] dvd_eq_mod_eq_0 del: mod_add_eq)
  have c1: "\<forall>a\<in>insert ?f S. (\<exists>b\<in>set (bs @ [nb]). in_block cfg b a)
       \<and> unat a mod unat (alignof_slot cfg) = 0"
    using blk inb al by auto
  have c2: "\<forall>a\<in>insert ?f S. \<forall>a'\<in>insert ?f S. a \<noteq> a' \<longrightarrow> apart cfg a a'"
    using pw ap by (auto intro: apart_sym)
  have c3: "cursor_inv cfg (bs @ [nb]) (insert ?f S)
      (P\<lparr>currentBlock := nb, currentSlot := ?f + sizeof_slot cfg, lastSlot := limit_slot cfg nb\<rparr>)"
    using hi al' notin f(1) by (auto simp: cursor_inv_def nw sizeof_ptr_def)
  show "slots_inv cfg (bs @ [nb]) (insert ?f S)
      (P\<lparr>currentBlock := nb, currentSlot := ?f + sizeof_slot cfg, lastSlot := limit_slot cfg nb\<rparr>)"
    unfolding slots_inv_def using c1 c2 c3 by blast
qed

lemma chain_upd: "a \<notin> set fl \<Longrightarrow> chain (nx(a := v)) h fl = chain nx h fl"
  by (induction fl arbitrary: h) auto

lemma chain_null: "chain nx 0 fl \<longleftrightarrow> fl = []"
  by (cases fl) auto

lemma chain_nonnull: "h \<noteq> 0 \<Longrightarrow> chain nx h fl \<Longrightarrow> \<exists>fl'. fl = h # fl' \<and> chain nx (nx h) fl'"
  by (cases fl) auto

lemma allocate_pop:
  "freeSlots P \<noteq> 0 \<Longrightarrow>
     allocate cfg n hint P M = (Inr (freeSlots P), P\<lparr>freeSlots := next_at M (freeSlots P)\<rparr>, M)"
  by (simp add: allocate_def)

lemma allocate_bump:
  "freeSlots P = 0 \<Longrightarrow> currentSlot P < lastSlot P \<Longrightarrow>
     allocate cfg n hint P M
       = (Inr (currentSlot P), P\<lparr>currentSlot := currentSlot P + sizeof_slot cfg\<rparr>, M)"
  by (auto simp: allocate_def)

lemma allocate_grow:
  "freeSlots P = 0 \<Longrightarrow> \<not> currentSlot P < lastSlot P \<Longrightarrow> sysnew M = Some b # rs \<Longrightarrow>
     allocate cfg n hint P M
       = (Inr (first_slot cfg b),
          P\<lparr>currentBlock := b,
            currentSlot := first_slot cfg b + sizeof_slot cfg,
            lastSlot := limit_slot cfg b\<rparr>,
          M\<lparr>next_at := (next_at M)(b := currentBlock P), sysnew := rs\<rparr>)"
  by (simp add: allocate_def allocateBlock_def operator_new_def Let_def first_slot_def
      limit_slot_def not_less)

lemma allocate_refused:
  "freeSlots P = 0 \<Longrightarrow> \<not> currentSlot P < lastSlot P \<Longrightarrow>
   sysnew M = [] \<or> (\<exists>rs. sysnew M = None # rs) \<Longrightarrow>
     allocate cfg n hint P M = (Inl bad_alloc, P, M\<lparr>sysnew := tl (sysnew M)\<rparr>)"
  by (auto simp: allocate_def allocateBlock_def operator_new_def not_less)

lemma pool_invI:
  "chain (next_at (cmach c)) (freeSlots (cpool c)) fl \<Longrightarrow>
   distinct (live c @ fl) \<Longrightarrow>
   slots_inv cfg bs (set (live c) \<union> set fl) (cpool c) \<Longrightarrow>
   \<forall>a\<in>set (returned c). unat a mod unat (alignof_slot cfg) = 0 \<Longrightarrow>
   fresh_blocks cfg (bs @ blocks_of (sysnew (cmach c))) \<Longrightarrow>
   pool_inv cfg bs fl c"
  by (simp add: pool_inv_def)

lemma pool_inv_alloc:
  assumes vc: "valid_config cfg"
    and inv: "pool_inv cfg bs fl c"
    and st: "step cfg Alloc c = Some c'"
  shows "\<exists>bs' fl'. pool_inv cfg bs' fl' c'"
proof -
  let ?P = "cpool c" and ?M = "cmach c"
  from inv have ch: "chain (next_at ?M) (freeSlots ?P) fl"
    and di: "distinct (live c @ fl)"
    and sl: "slots_inv cfg bs (set (live c) \<union> set fl) ?P"
    and re: "\<forall>a\<in>set (returned c). unat a mod unat (alignof_slot cfg) = 0"
    and fr: "fresh_blocks cfg (bs @ blocks_of (sysnew ?M))"
    by (simp_all add: pool_inv_def)
  show ?thesis
  proof (cases "freeSlots ?P = 0")
    case False
    from chain_nonnull[OF False ch] obtain fl' where
      fl: "fl = freeSlots ?P # fl'" and ch': "chain (next_at ?M) (next_at ?M (freeSlots ?P)) fl'"
      by blast
    have c': "c' = c\<lparr>cpool := ?P\<lparr>freeSlots := next_at ?M (freeSlots ?P)\<rparr>, cmach := ?M,
        live := freeSlots ?P # live c, returned := freeSlots ?P # returned c\<rparr>"
      using st by (simp add: allocate_pop[OF False])
    have al: "unat (freeSlots ?P) mod unat (alignof_slot cfg) = 0"
      using sl fl by (simp add: slots_inv_def)
    have se: "set (live c') \<union> set fl' = set (live c) \<union> set fl"
      unfolding c' fl by simp
    have "pool_inv cfg bs fl' c'"
    proof (rule pool_invI)
      show "chain (next_at (cmach c')) (freeSlots (cpool c')) fl'"
        using ch' by (simp add: c')
      show "distinct (live c' @ fl')"
        using di unfolding fl by (simp add: c')
      show "slots_inv cfg bs (set (live c') \<union> set fl') (cpool c')"
        unfolding se using sl by (simp add: c')
      show "\<forall>a\<in>set (returned c'). unat a mod unat (alignof_slot cfg) = 0"
        using re al by (simp add: c')
      show "fresh_blocks cfg (bs @ blocks_of (sysnew (cmach c')))"
        using fr by (simp add: c')
    qed
    then show ?thesis by blast
  next
    case True
    then have fl: "fl = []" using ch by (simp add: chain_null)
    show ?thesis
    proof (cases "currentSlot ?P < lastSlot ?P")
      case lt: True
      have c': "c' = c\<lparr>cpool := ?P\<lparr>currentSlot := currentSlot ?P + sizeof_slot cfg\<rparr>,
          cmach := ?M, live := currentSlot ?P # live c,
          returned := currentSlot ?P # returned c\<rparr>"
        using st by (simp add: allocate_bump[OF True lt])
      note b = slots_inv_bump[OF vc fr sl lt]
      have "pool_inv cfg bs [] c'"
      proof (rule pool_invI)
        show "chain (next_at (cmach c')) (freeSlots (cpool c')) []"
          using True by (simp add: c')
        show "distinct (live c' @ [])"
          using di b(1) by (simp add: c' fl)
        show "slots_inv cfg bs (set (live c') \<union> set []) (cpool c')"
          using b(3) by (simp add: c' fl)
        show "\<forall>a\<in>set (returned c'). unat a mod unat (alignof_slot cfg) = 0"
          using re b(2) by (simp add: c')
        show "fresh_blocks cfg (bs @ blocks_of (sysnew (cmach c')))"
          using fr by (simp add: c')
      qed
      then show ?thesis by blast
    next
      case ge: False
      show ?thesis
      proof (cases "sysnew ?M")
        case Nil
        then have c': "c' = c\<lparr>cpool := ?P, cmach := ?M\<lparr>sysnew := []\<rparr>\<rparr>"
          using st by (simp add: allocate_refused[OF True ge])
        have "pool_inv cfg bs fl c'"
          using ch di sl re fr Nil by (intro pool_invI) (simp_all add: c')
        then show ?thesis by blast
      next
        case (Cons r rs)
        show ?thesis
        proof (cases r)
          case None
          then have c': "c' = c\<lparr>cpool := ?P, cmach := ?M\<lparr>sysnew := rs\<rparr>\<rparr>"
            using st Cons by (simp add: allocate_refused[OF True ge])
          have "pool_inv cfg bs fl c'"
            using ch di sl re fr Cons None by (intro pool_invI) (simp_all add: c')
          then show ?thesis by blast
        next
          case (Some nb)
          then have sy: "sysnew ?M = Some nb # rs" using Cons by simp
          have c': "c' = c\<lparr>cpool := ?P\<lparr>currentBlock := nb,
                currentSlot := first_slot cfg nb + sizeof_slot cfg,
                lastSlot := limit_slot cfg nb\<rparr>,
              cmach := ?M\<lparr>next_at := (next_at ?M)(nb := currentBlock ?P), sysnew := rs\<rparr>,
              live := first_slot cfg nb # live c,
              returned := first_slot cfg nb # returned c\<rparr>"
            using st by (simp add: allocate_grow[OF True ge sy])
          have fr': "fresh_blocks cfg (bs @ nb # blocks_of rs)" using fr sy by simp
          note g = slots_inv_grow[OF vc fr' sl]
          have "pool_inv cfg (bs @ [nb]) [] c'"
          proof (rule pool_invI)
            show "chain (next_at (cmach c')) (freeSlots (cpool c')) []"
              using True by (simp add: c')
            show "distinct (live c' @ [])"
              using di g(1) by (simp add: c' fl)
            show "slots_inv cfg (bs @ [nb]) (set (live c') \<union> set []) (cpool c')"
              using g(4) by (simp add: c' fl)
            show "\<forall>a\<in>set (returned c'). unat a mod unat (alignof_slot cfg) = 0"
              using re g(3) by (simp add: c')
            show "fresh_blocks cfg ((bs @ [nb]) @ blocks_of (sysnew (cmach c')))"
              using fr' by (simp add: c')
          qed
          then show ?thesis by blast
        qed
      qed
    qed
  qed
qed

lemma pool_inv_free:
  assumes vc: "valid_config cfg"
    and inv: "pool_inv cfg bs fl c"
    and st: "step cfg (Free p) c = Some c'"
  shows "\<exists>bs' fl'. pool_inv cfg bs' fl' c'"
proof (cases "p = 0")
  case True
  then have "c' = c" using st by (simp add: deallocate_def)
  then show ?thesis using inv by blast
next
  case False
  let ?P = "cpool c" and ?M = "cmach c"
  from st False have pl: "p \<in> set (live c)" by (simp split: if_splits)
  have c': "c' = c\<lparr>cpool := ?P\<lparr>freeSlots := p\<rparr>,
      cmach := ?M\<lparr>next_at := (next_at ?M)(p := freeSlots ?P)\<rparr>,
      live := remove1 p (live c)\<rparr>"
    using st False pl by (simp add: deallocate_def)
  from inv have ch: "chain (next_at ?M) (freeSlots ?P) fl"
    and di: "distinct (live c @ fl)"
    and sl: "slots_inv cfg bs (set (live c) \<union> set fl) ?P"
    and re: "\<forall>a\<in>set (returned c). unat a mod unat (alignof_slot cfg) = 0"
    and fr: "fresh_blocks cfg (bs @ blocks_of (sysnew ?M))"
    by (simp_all add: pool_inv_def)
  have nf: "p \<notin> set fl" using di pl by auto
  have se: "set (live c') \<union> set (p # fl) = set (live c) \<union> set fl"
    unfolding c' using di pl by auto
  have "pool_inv cfg bs (p # fl) c'"
  proof (rule pool_invI)
    show "chain (next_at (cmach c')) (freeSlots (cpool c')) (p # fl)"
      using ch nf False by (simp add: c' chain_upd)
    show "distinct (live c' @ p # fl)"
      using di pl nf by (auto simp: c')
    show "slots_inv cfg bs (set (live c') \<union> set (p # fl)) (cpool c')"
      unfolding se using sl by (simp add: c')
    show "\<forall>a\<in>set (returned c'). unat a mod unat (alignof_slot cfg) = 0"
      using re by (simp add: c')
    show "fresh_blocks cfg (bs @ blocks_of (sysnew (cmach c')))"
      using fr by (simp add: c')
  qed
  then show ?thesis by blast
qed

lemma pool_inv_write:
  assumes vc: "valid_config cfg"
    and inv: "pool_inv cfg bs fl c"
    and st: "step cfg (Write a v) c = Some c'"
  shows "\<exists>bs' fl'. pool_inv cfg bs' fl' c'"
proof -
  let ?P = "cpool c" and ?M = "cmach c"
  from st have il: "in_live_slot cfg (live c) a"
    and c': "c' = c\<lparr>cmach := ?M\<lparr>next_at := (next_at ?M)(a := v)\<rparr>\<rparr>"
    by (simp_all split: if_splits)
  from inv have ch: "chain (next_at ?M) (freeSlots ?P) fl"
    and di: "distinct (live c @ fl)"
    and sl: "slots_inv cfg bs (set (live c) \<union> set fl) ?P"
    and re: "\<forall>a\<in>set (returned c). unat a mod unat (alignof_slot cfg) = 0"
    and fr: "fresh_blocks cfg (bs @ blocks_of (sysnew ?M))"
    by (simp_all add: pool_inv_def)
  from il obtain p where p: "p \<in> set (live c)" "unat p \<le> unat a"
      "unat a + unat sizeof_ptr \<le> unat p + unat (sizeof_slot cfg)"
    by (auto simp: in_live_slot_def)
  have nf: "a \<notin> set fl"
  proof
    assume af: "a \<in> set fl"
    then have "a \<noteq> p" using di p(1) by auto
    then have "apart cfg a p" using sl af p(1) by (simp add: slots_inv_def)
    then show False
      using p(2,3) valid_config_nat(1)[OF vc] by (auto simp: apart_def sizeof_ptr_def)
  qed
  have "pool_inv cfg bs fl c'"
    using ch di sl re fr nf by (intro pool_invI) (simp_all add: c' chain_upd)
  then show ?thesis by blast
qed

lemma pool_inv_step:
  assumes "valid_config cfg" "pool_inv cfg bs fl c" "step cfg x c = Some c'"
  shows "\<exists>bs' fl'. pool_inv cfg bs' fl' c'"
  using assms by (cases x) (blast intro: pool_inv_alloc pool_inv_free pool_inv_write)+

lemma pool_inv_run:
  assumes "valid_config cfg"
  shows "pool_inv cfg bs fl c \<Longrightarrow> run cfg xs c = Some c' \<Longrightarrow> \<exists>bs' fl'. pool_inv cfg bs' fl' c'"
proof (induction xs arbitrary: bs fl c)
  case Nil
  then show ?case by auto
next
  case (Cons x xs)
  from Cons.prems(2) obtain c1 where s: "step cfg x c = Some c1" and r: "run cfg xs c1 = Some c'"
    by (auto split: option.splits)
  from pool_inv_step[OF assms Cons.prems(1) s] obtain bs1 fl1 where "pool_inv cfg bs1 fl1 c1"
    by blast
  then show ?case using r by (rule Cons.IH)
qed

lemma pool_inv_start:
  "sysnew_ok cfg rs \<Longrightarrow> pool_inv cfg [] [] (start nx rs)"
  by (simp add: pool_inv_def slots_inv_def cursor_inv_def start_def sysnew_ok_def
      MemoryPool_default_def)

lemma reachable_inv:
  assumes "valid_config cfg" "sysnew_ok cfg rs" "run cfg xs (start nx rs) = Some c"
  shows "\<exists>bs fl. pool_inv cfg bs fl c"
  using pool_inv_run[OF assms(1) pool_inv_start[OF assms(2)] assms(3)] .

section \<open>Clients\<close>

lemma valid_config_int: "valid_config cfg_int"
  unfolding valid_config_def is_pow2_def cfg_int_def alignof_ptr_def sizeof_ptr_def
  by code_simp

lemma sysnew_ok_int: "sysnew_ok cfg_int [Some 4096, Some 12288]"
  by (simp add: sysnew_ok_def block_ok_def blocks_apart_def cfg_int_def alignof_ptr_def)

lemma aligned_elem:
  assumes vc: "valid_config cfg" and al: "unat a mod unat (alignof_slot cfg) = 0"
  shows "a mod alignof_elem cfg = 0"
proof -
  have "unat (alignof_elem cfg) dvd unat a"
    using valid_config_nat(7)[OF vc] al by (auto elim: dvd_trans)
  then have "unat (a mod alignof_elem cfg) = 0"
    by (simp add: unat_mod dvd_eq_mod_eq_0)
  then show ?thesis by (simp add: unat_eq_0)
qed

text \<open>
  C5: whatever a client does, every address \<open>allocate\<close> returns to it is a multiple
  of \<open>alignof(T)\<close>: the first slot of a block, the slots the bump cursor reaches
  after it, and the slots that come back from the free list.
\<close>

theorem allocate_aligned:
  assumes "valid_config cfg" "sysnew_ok cfg rs" "run cfg ops (start nx rs) = Some c"
  shows "\<forall>a\<in>set (returned c). a mod alignof_elem cfg = 0"
proof -
  from reachable_inv[OF assms] obtain bs fl where "pool_inv cfg bs fl c" by blast
  then have "\<forall>a\<in>set (returned c). unat a mod unat (alignof_slot cfg) = 0"
    by (simp add: pool_inv_def)
  then show ?thesis by (auto intro: aligned_elem[OF assms(1)])
qed

theorem allocate_aligned_witness:
  "valid_config cfg_int \<and> sysnew_ok cfg_int [Some 4096, Some 12288]
   \<and> run cfg_int [Alloc, Alloc, Free 4104] (start mem0 [Some 4096, Some 12288]) = Some client_A
   \<and> returned client_A = [4112, 4104]
   \<and> (4112::addr) mod alignof_elem cfg_int = 0
   \<and> (4104::addr) mod alignof_elem cfg_int = 0"
  using allocate_aligned[OF valid_config_int sysnew_ok_int client_A_reached]
    valid_config_int sysnew_ok_int client_A_reached
  by (simp add: client_A_def)

text \<open>
  C7: whatever a client does, any two of its live slots are a slot size or more apart.
\<close>

theorem live_slots_apart:
  assumes "valid_config cfg" "sysnew_ok cfg rs" "run cfg ops (start nx rs) = Some c"
  shows "\<forall>i<length (live c). \<forall>j<length (live c). i \<noteq> j \<longrightarrow> apart cfg (live c ! i) (live c ! j)"
proof -
  from reachable_inv[OF assms] obtain bs fl where inv: "pool_inv cfg bs fl c" by blast
  then have di: "distinct (live c)"
    and pw: "\<forall>a\<in>set (live c). \<forall>a'\<in>set (live c). a \<noteq> a' \<longrightarrow> apart cfg a a'"
    by (simp_all add: pool_inv_def slots_inv_def)
  show ?thesis
  proof (intro allI impI)
    fix i j assume ij: "i < length (live c)" "j < length (live c)" "i \<noteq> j"
    then have "live c ! i \<noteq> live c ! j" using di by (simp add: nth_eq_iff_index_eq)
    then show "apart cfg (live c ! i) (live c ! j)" using pw ij by simp
  qed
qed

lemma client_B_reached:
  "run cfg_int [Alloc, Alloc, Alloc] (start mem0 [Some 4096, Some 12288]) = Some client_B"
  by (simp add: start_def cfg_int_def client_B_def allocate_def allocateBlock_def
      operator_new_def deallocate_def MemoryPool_default_def padPointer_def sizeof_ptr_def Let_def)

theorem live_slots_apart_witness:
  "valid_config cfg_int \<and> sysnew_ok cfg_int [Some 4096, Some 12288]
   \<and> run cfg_int [Alloc, Alloc, Alloc] (start mem0 [Some 4096, Some 12288]) = Some client_B
   \<and> live client_B = [4120, 4112, 4104]
   \<and> apart cfg_int (live client_B ! 0) (live client_B ! 2)"
  using live_slots_apart[OF valid_config_int sysnew_ok_int client_B_reached, rule_format, of 0 2]
    valid_config_int sysnew_ok_int client_B_reached
  by (simp add: client_B_def)

text \<open>
  C4: in every pool state, \<open>deallocate(p)\<close> of a non-null \<open>p\<close> followed by
  \<open>allocate()\<close> returns \<open>p\<close> and restores the four cursors; and every live address
  of a client is non-null, so that giving it back and allocating again returns it.
\<close>

theorem lifo_reuse:
  "(p \<noteq> 0 \<longrightarrow>
      allocate cfg n' hint (fst (deallocate p n P M)) (snd (deallocate p n P M))
        = (Inr p, P, snd (deallocate p n P M)))
   \<and> (valid_config cfg \<and> sysnew_ok cfg rs \<and> run cfg ops (start nx rs) = Some c
        \<and> a \<in> set (live c) \<longrightarrow>
      a \<noteq> 0
      \<and> (\<exists>c1 c2. step cfg (Free a) c = Some c1 \<and> step cfg Alloc c1 = Some c2
            \<and> returned c2 = a # returned c \<and> cpool c2 = cpool c))"
proof (intro conjI impI)
  assume "p \<noteq> 0"
  then show "allocate cfg n' hint (fst (deallocate p n P M)) (snd (deallocate p n P M))
        = (Inr p, P, snd (deallocate p n P M))"
    by (simp add: deallocate_def allocate_def)
next
  assume h: "valid_config cfg \<and> sysnew_ok cfg rs \<and> run cfg ops (start nx rs) = Some c
        \<and> a \<in> set (live c)"
  then obtain bs fl where inv: "pool_inv cfg bs fl c" using reachable_inv by blast
  then have "\<exists>b\<in>set bs. in_block cfg b a" using h by (simp add: pool_inv_def slots_inv_def)
  then show nz: "a \<noteq> 0" by (auto dest: in_block_nonnull)
  show "\<exists>c1 c2. step cfg (Free a) c = Some c1 \<and> step cfg Alloc c1 = Some c2
            \<and> returned c2 = a # returned c \<and> cpool c2 = cpool c"
    using nz h by (simp add: deallocate_def allocate_def)
qed

theorem lifo_reuse_witness:
  "(4112::addr) \<noteq> 0 \<and> valid_config cfg_int \<and> sysnew_ok cfg_int [Some 4096, Some 12288]
   \<and> run cfg_int [Alloc, Alloc, Free 4104] (start mem0 [Some 4096, Some 12288]) = Some client_A
   \<and> 4112 \<in> set (live client_A)
   \<and> fst (allocate cfg_int 1 0 (fst (deallocate 4112 1 (cpool client_A) (cmach client_A)))
         (snd (deallocate 4112 1 (cpool client_A) (cmach client_A)))) = Inr 4112
   \<and> (\<exists>c1 c2. step cfg_int (Free 4112) client_A = Some c1 \<and> step cfg_int Alloc c1 = Some c2
            \<and> returned c2 = 4112 # returned client_A \<and> cpool c2 = cpool client_A)"
proof -
  have l: "4112 \<in> set (live client_A)" by (simp add: client_A_def)
  note t = lifo_reuse[of 4112 cfg_int 1 0 1 "cpool client_A" "cmach client_A"
      "[Some 4096, Some 12288]" "[Alloc, Alloc, Free 4104]" mem0 client_A 4112]
  show ?thesis
    using t valid_config_int sysnew_ok_int client_A_reached l by simp
qed

section \<open>Filling a block\<close>

lemma slot_at_0: "slot_at cfg b 0 = first_slot cfg b"
  by (simp add: slot_at_def)

lemma slot_at_Suc: "slot_at cfg b (Suc i) = slot_at cfg b i + sizeof_slot cfg"
  by (simp add: slot_at_def algebra_simps)

lemma slots_fit:
  assumes vc: "valid_config cfg" and bo: "block_ok cfg b"
  shows "0 < slots_per_block cfg b"
    and "unat (first_slot cfg b) + slots_per_block cfg b * unat (sizeof_slot cfg)
           \<le> unat b + unat (BlockSize cfg)"
    and "unat b + unat (BlockSize cfg)
           < unat (first_slot cfg b) + Suc (slots_per_block cfg b) * unat (sizeof_slot cfg)"
proof -
  let ?ss = "unat (sizeof_slot cfg)"
  let ?pad = "unat (padPointer (b + sizeof_ptr) (alignof_slot cfg))"
  let ?n = "unat (BlockSize cfg) - 8 - ?pad"
  note c = valid_config_nat[OF vc]
  note f = first_slot_nat[OF vc bo]
  have k: "slots_per_block cfg b = ?n div ?ss"
    by (simp add: slots_per_block_def sizeof_ptr_def)
  have pos: "0 < ?ss" using c(1) by simp
  have p: "8 + ?pad \<le> ?ss" using f(1,3) c(5) by simp
  then have n: "8 + ?pad + ?n = unat (BlockSize cfg)" and ge: "?ss \<le> ?n" using c(6) by simp_all
  show "0 < slots_per_block cfg b"
    unfolding k using ge pos by (simp add: div_greater_zero_iff)
  have "?n div ?ss * ?ss \<le> ?n" by simp
  then show "unat (first_slot cfg b) + slots_per_block cfg b * ?ss \<le> unat b + unat (BlockSize cfg)"
    unfolding k f(1) using n by linarith
  have "?n < Suc (?n div ?ss) * ?ss"
    using pos dividend_less_div_times[of ?ss ?n] by (simp add: mult.commute)
  then show "unat b + unat (BlockSize cfg)
           < unat (first_slot cfg b) + Suc (slots_per_block cfg b) * ?ss"
    unfolding k f(1) using n by linarith
qed

lemma unat_slot_at:
  assumes vc: "valid_config cfg" and bo: "block_ok cfg b"
  shows "i \<le> slots_per_block cfg b \<Longrightarrow>
     unat (slot_at cfg b i) = unat (first_slot cfg b) + i * unat (sizeof_slot cfg)"
proof (induction i)
  case 0
  then show ?case by (simp add: slot_at_0)
next
  case (Suc i)
  let ?ss = "unat (sizeof_slot cfg)"
  have ih: "unat (slot_at cfg b i) = unat (first_slot cfg b) + i * ?ss"
    using Suc by simp
  have "Suc i * ?ss \<le> slots_per_block cfg b * ?ss"
    using Suc.prems by (intro mult_le_mono1)
  then have "unat (first_slot cfg b) + Suc i * ?ss \<le> unat b + unat (BlockSize cfg)"
    using slots_fit(2)[OF vc bo] by linarith
  then have "unat (slot_at cfg b i) + ?ss < 2 ^ 64"
    using block_ok_nat(3)[OF bo] ih by simp
  then have "unat (slot_at cfg b i + sizeof_slot cfg) = unat (slot_at cfg b i) + ?ss"
    by (rule unat_plus_no_wrap)
  then show ?case by (simp add: slot_at_Suc ih)
qed

lemma slot_at_in_block:
  assumes vc: "valid_config cfg" and bo: "block_ok cfg b" and i: "i \<le> slots_per_block cfg b"
  shows "in_block cfg b (slot_at cfg b i) \<longleftrightarrow> i < slots_per_block cfg b"
proof -
  let ?ss = "unat (sizeof_slot cfg)" and ?k = "slots_per_block cfg b"
  note u = unat_slot_at[OF vc bo i]
  note f = first_slot_nat[OF vc bo]
  have lo: "unat b + unat sizeof_ptr \<le> unat (slot_at cfg b i)"
    using u f(1) by (simp add: sizeof_ptr_def)
  show ?thesis
  proof (cases "i < ?k")
    case True
    then have "Suc i * ?ss \<le> ?k * ?ss" by (intro mult_le_mono1) simp
    then have "unat (slot_at cfg b i) + ?ss \<le> unat b + unat (BlockSize cfg)"
      using slots_fit(2)[OF vc bo] u by simp
    then show ?thesis using True lo by (simp add: in_block_def)
  next
    case False
    then have "i = ?k" using i by simp
    then have "unat b + unat (BlockSize cfg) < unat (slot_at cfg b i) + ?ss"
      using slots_fit(3)[OF vc bo] u by simp
    then show ?thesis using False by (simp add: in_block_def)
  qed
qed

lemma slot_at_below_limit:
  assumes vc: "valid_config cfg" and bo: "block_ok cfg b" and i: "i \<le> slots_per_block cfg b"
  shows "slot_at cfg b i < limit_slot cfg b \<longleftrightarrow> i < slots_per_block cfg b"
proof -
  have "unat b + unat sizeof_ptr \<le> unat (slot_at cfg b i)"
    using unat_slot_at[OF vc bo i] first_slot_nat(1)[OF vc bo] by (simp add: sizeof_ptr_def)
  then show ?thesis
    using slot_at_in_block[OF vc bo i] by (simp add: below_limit_iff[OF vc bo] in_block_def)
qed

lemma bump_run:
  assumes vc: "valid_config cfg" and bo: "block_ok cfg b"
  shows "freeSlots (cpool c) = 0 \<Longrightarrow> lastSlot (cpool c) = limit_slot cfg b \<Longrightarrow>
     currentSlot (cpool c) = slot_at cfg b j \<Longrightarrow> j + m \<le> slots_per_block cfg b \<Longrightarrow>
     run cfg (replicate m Alloc) c
       = Some (c\<lparr>cpool := (cpool c)\<lparr>currentSlot := slot_at cfg b (j + m)\<rparr>,
                 live := rev (map (slot_at cfg b) [j..<j + m]) @ live c,
                 returned := rev (map (slot_at cfg b) [j..<j + m]) @ returned c\<rparr>)"
proof (induction m arbitrary: c j)
  case 0
  then show ?case by simp
next
  case (Suc m)
  let ?P = "cpool c"
  have lt: "currentSlot ?P < lastSlot ?P"
    using Suc.prems slot_at_below_limit[OF vc bo, of j] by simp
  let ?c1 = "c\<lparr>cpool := ?P\<lparr>currentSlot := slot_at cfg b (Suc j)\<rparr>,
      cmach := cmach c, live := slot_at cfg b j # live c,
      returned := slot_at cfg b j # returned c\<rparr>"
  have s: "step cfg Alloc c = Some ?c1"
    using Suc.prems(1,3) by (simp add: allocate_bump[OF Suc.prems(1) lt] slot_at_Suc)
  have r: "run cfg (replicate m Alloc) ?c1
       = Some (?c1\<lparr>cpool := (cpool ?c1)\<lparr>currentSlot := slot_at cfg b (Suc j + m)\<rparr>,
                 live := rev (map (slot_at cfg b) [Suc j..<Suc j + m]) @ live ?c1,
                 returned := rev (map (slot_at cfg b) [Suc j..<Suc j + m]) @ returned ?c1\<rparr>)"
    using Suc.prems by (intro Suc.IH) simp_all
  have u: "[j..<j + Suc m] = j # [Suc j..<Suc j + m]"
    by (simp add: upt_conv_Cons)
  show ?case
    unfolding u using s r by simp
qed

lemma valid_config_small: "valid_config cfg_small"
  unfolding valid_config_def is_pow2_def cfg_small_def alignof_ptr_def sizeof_ptr_def
  by code_simp

lemma sysnew_ok_small: "sysnew_ok cfg_small [Some 4096, Some 8192]"
  by (simp add: sysnew_ok_def block_ok_def blocks_apart_def cfg_small_def alignof_ptr_def)

text \<open>
  C6: from a fresh pool whose first block holds \<open>k\<close> slots, \<open>k\<close> allocations are
  served from that block alone (one call of \<open>operator new\<close>), at the addresses
  \<open>slot_at cfg b1 0\<close>, ..., \<open>slot_at cfg b1 (k - 1)\<close>, all inside the block; slot
  number \<open>k\<close> would not fit, and it is the first one not below the limit cursor. The
  next allocation acquires the second block and returns its first slot, which is aligned
  and differs from the \<open>k\<close> addresses before.
\<close>

theorem growth_trigger:
  assumes vc: "valid_config cfg" and so: "sysnew_ok cfg (Some b1 # Some b2 # rs)"
  shows "\<exists>c c'. run cfg (replicate (slots_per_block cfg b1) Alloc)
                  (start nx (Some b1 # Some b2 # rs)) = Some c
     \<and> 0 < slots_per_block cfg b1
     \<and> returned c = rev (map (slot_at cfg b1) [0..<slots_per_block cfg b1])
     \<and> (\<forall>i < slots_per_block cfg b1. in_block cfg b1 (slot_at cfg b1 i))
     \<and> \<not> in_block cfg b1 (slot_at cfg b1 (slots_per_block cfg b1))
     \<and> currentBlock (cpool c) = b1 \<and> sysnew (cmach c) = Some b2 # rs
     \<and> lastSlot (cpool c) = limit_slot cfg b1
     \<and> (\<forall>i \<le> slots_per_block cfg b1.
           slot_at cfg b1 i < limit_slot cfg b1 \<longleftrightarrow> i < slots_per_block cfg b1)
     \<and> step cfg Alloc c = Some c'
     \<and> currentBlock (cpool c') = b2 \<and> sysnew (cmach c') = rs
     \<and> returned c' = first_slot cfg b2 # returned c
     \<and> first_slot cfg b2 mod alignof_elem cfg = 0
     \<and> first_slot cfg b2 \<notin> set (returned c)"
proof -
  let ?k = "slots_per_block cfg b1"
  let ?c0 = "start nx (Some b1 # Some b2 # rs)"
  from so have bo1: "block_ok cfg b1" and bo2: "block_ok cfg b2"
    and ba: "blocks_apart cfg b1 b2"
    by (simp_all add: sysnew_ok_def)
  note kpos = slots_fit(1)[OF vc bo1]
  then obtain m where km: "?k = Suc m" by (cases ?k) auto
  define c1 where "c1 = ?c0\<lparr>cpool := MemoryPool_default\<lparr>currentBlock := b1,
        currentSlot := slot_at cfg b1 1, lastSlot := limit_slot cfg b1\<rparr>,
      cmach := (cmach ?c0)\<lparr>next_at := nx(b1 := 0), sysnew := Some b2 # rs\<rparr>,
      live := [slot_at cfg b1 0], returned := [slot_at cfg b1 0]\<rparr>"
  have s1: "step cfg Alloc ?c0 = Some c1"
    by (simp add: c1_def start_def MemoryPool_default_def allocate_grow slot_at_def)
  have p1: "freeSlots (cpool c1) = 0" "lastSlot (cpool c1) = limit_slot cfg b1"
    "currentSlot (cpool c1) = slot_at cfg b1 1" "currentBlock (cpool c1) = b1"
    "sysnew (cmach c1) = Some b2 # rs" "returned c1 = [slot_at cfg b1 0]"
    by (simp_all add: c1_def MemoryPool_default_def)
  define xs where "xs = rev (map (slot_at cfg b1) [1..<1 + m])"
  define c where "c = c1\<lparr>cpool := (cpool c1)\<lparr>currentSlot := slot_at cfg b1 (1 + m)\<rparr>,
      live := xs @ live c1, returned := xs @ returned c1\<rparr>"
  have r1: "run cfg (replicate m Alloc) c1 = Some c"
    unfolding c_def xs_def using km p1 by (intro bump_run[OF vc bo1]) simp_all
  have run: "run cfg (replicate ?k Alloc) ?c0 = Some c"
    unfolding km by (simp only: replicate_Suc run.simps s1 option.simps r1)
  have pc: "freeSlots (cpool c) = 0" "lastSlot (cpool c) = limit_slot cfg b1"
    "currentSlot (cpool c) = slot_at cfg b1 ?k" "currentBlock (cpool c) = b1"
    "sysnew (cmach c) = Some b2 # rs" "returned c = xs @ [slot_at cfg b1 0]"
    using p1 km by (simp_all add: c_def)
  have u: "[0..<?k] = 0 # [1..<1 + m]"
    unfolding km by (simp add: upt_conv_Cons)
  have ret: "returned c = rev (map (slot_at cfg b1) [0..<?k])"
    unfolding u pc xs_def by simp
  have inb: "\<forall>i < ?k. in_block cfg b1 (slot_at cfg b1 i)"
    using slot_at_in_block[OF vc bo1] by simp
  have out: "\<not> in_block cfg b1 (slot_at cfg b1 ?k)"
    using slot_at_in_block[OF vc bo1, of ?k] by simp
  have lim: "\<forall>i \<le> ?k. slot_at cfg b1 i < limit_slot cfg b1 \<longleftrightarrow> i < ?k"
    using slot_at_below_limit[OF vc bo1] by simp
  have ge: "\<not> currentSlot (cpool c) < lastSlot (cpool c)"
    unfolding pc using slot_at_below_limit[OF vc bo1, of ?k] by simp
  define c' where "c' = c\<lparr>cpool := (cpool c)\<lparr>currentBlock := b2,
        currentSlot := first_slot cfg b2 + sizeof_slot cfg, lastSlot := limit_slot cfg b2\<rparr>,
      cmach := (cmach c)\<lparr>next_at := (next_at (cmach c))(b2 := currentBlock (cpool c)),
        sysnew := rs\<rparr>,
      live := first_slot cfg b2 # live c, returned := first_slot cfg b2 # returned c\<rparr>"
  have s2: "step cfg Alloc c = Some c'"
    unfolding step.simps allocate_grow[OF pc(1) ge pc(5)] c'_def by simp
  have pc': "currentBlock (cpool c') = b2" "sysnew (cmach c') = rs"
    "returned c' = first_slot cfg b2 # returned c"
    by (simp_all add: c'_def)
  have al: "first_slot cfg b2 mod alignof_elem cfg = 0"
    using first_slot_nat(2)[OF vc bo2] by (rule aligned_elem[OF vc])
  have fresh: "first_slot cfg b2 \<notin> set (returned c)"
  proof
    assume "first_slot cfg b2 \<in> set (returned c)"
    then obtain i where i: "i < ?k" "first_slot cfg b2 = slot_at cfg b1 i"
      unfolding ret by auto
    have "apart cfg (slot_at cfg b1 i) (first_slot cfg b2)"
      using inb i(1) first_slot_in_block[OF vc bo2] ba by (intro in_blocks_apart) auto
    then show False
      using i(2) valid_config_nat(1)[OF vc] by (simp add: apart_def)
  qed
  show ?thesis
    by (intro exI[of _ c] exI[of _ c'] conjI run kpos ret inb out pc(4) pc(5) pc(2) lim s2 pc' al
        fresh)
qed

theorem growth_trigger_witness:
  "valid_config cfg_small \<and> sysnew_ok cfg_small [Some 4096, Some 8192]
   \<and> slots_per_block cfg_small 4096 = 3
   \<and> run cfg_small [Alloc, Alloc, Alloc] (start mem0 [Some 4096, Some 8192])
       = Some \<lparr>cpool = \<lparr>currentBlock = 4096, currentSlot = 4128, lastSlot = 4121,
                            freeSlots = 0\<rparr>,
                 cmach = \<lparr>next_at = mem0(4096 := 0), sysnew = [Some 8192], deleted = [],
                            dtor_calls = []\<rparr>,
                 live = [4120, 4112, 4104], returned = [4120, 4112, 4104]\<rparr>
   \<and> (\<exists>c c'. run cfg_small (replicate (slots_per_block cfg_small 4096) Alloc)
                  (start mem0 [Some 4096, Some 8192]) = Some c
        \<and> currentBlock (cpool c) = 4096
        \<and> step cfg_small Alloc c = Some c'
        \<and> currentBlock (cpool c') = 8192
        \<and> returned c' = first_slot cfg_small 8192 # returned c
        \<and> first_slot cfg_small 8192 = 8200)"
proof -
  have k: "slots_per_block cfg_small 4096 = 3"
    by (simp add: slots_per_block_def cfg_small_def sizeof_ptr_def padPointer_def)
  have f: "first_slot cfg_small 8192 = 8200"
    by (simp add: first_slot_def cfg_small_def sizeof_ptr_def padPointer_def)
  have r: "run cfg_small [Alloc, Alloc, Alloc] (start mem0 [Some 4096, Some 8192])
       = Some \<lparr>cpool = \<lparr>currentBlock = 4096, currentSlot = 4128, lastSlot = 4121,
                            freeSlots = 0\<rparr>,
                 cmach = \<lparr>next_at = mem0(4096 := 0), sysnew = [Some 8192], deleted = [],
                            dtor_calls = []\<rparr>,
                 live = [4120, 4112, 4104], returned = [4120, 4112, 4104]\<rparr>"
    by (simp add: start_def cfg_small_def allocate_def allocateBlock_def
      operator_new_def MemoryPool_default_def padPointer_def sizeof_ptr_def Let_def)
  from growth_trigger[OF valid_config_small sysnew_ok_small, of mem0]
  obtain c c' where "run cfg_small (replicate (slots_per_block cfg_small 4096) Alloc)
                  (start mem0 [Some 4096, Some 8192]) = Some c"
     "currentBlock (cpool c) = 4096" "step cfg_small Alloc c = Some c'"
     "currentBlock (cpool c') = 8192" "returned c' = first_slot cfg_small 8192 # returned c"
    by blast
  then have "\<exists>c c'. run cfg_small (replicate (slots_per_block cfg_small 4096) Alloc)
                  (start mem0 [Some 4096, Some 8192]) = Some c
        \<and> currentBlock (cpool c) = 4096
        \<and> step cfg_small Alloc c = Some c'
        \<and> currentBlock (cpool c') = 8192
        \<and> returned c' = first_slot cfg_small 8192 # returned c
        \<and> first_slot cfg_small 8192 = 8200"
    using f by blast
  then show ?thesis
    using valid_config_small sysnew_ok_small k r by (intro conjI)
qed

section \<open>The order of allocate\<close>

text \<open>
  C2: \<open>allocate\<close> pops the head of a non-empty free list and leaves the machine as it
  is; otherwise, with the bump cursor below the limit cursor, it returns the bump cursor
  and advances it by one slot; otherwise it calls \<open>allocateBlock\<close> and returns the
  bump cursor of the new block, advanced by one slot afterwards. In a block that
  \<open>operator new\<close> returns the bump cursor starts below the limit cursor.
\<close>

theorem allocate_order:
  "(freeSlots P \<noteq> 0 \<longrightarrow>
      allocate cfg n hint P M
        = (Inr (freeSlots P), P\<lparr>freeSlots := next_at M (freeSlots P)\<rparr>, M))
   \<and> (freeSlots P = 0 \<and> currentSlot P < lastSlot P \<longrightarrow>
      allocate cfg n hint P M
        = (Inr (currentSlot P), P\<lparr>currentSlot := currentSlot P + sizeof_slot cfg\<rparr>, M))
   \<and> (freeSlots P = 0 \<and> \<not> currentSlot P < lastSlot P \<and> sysnew M = Some b # rs \<longrightarrow>
      allocateBlock cfg P M
        = (Inr (),
           P\<lparr>currentBlock := b, currentSlot := first_slot cfg b, lastSlot := limit_slot cfg b\<rparr>,
           M\<lparr>next_at := (next_at M)(b := currentBlock P), sysnew := rs\<rparr>)
      \<and> allocate cfg n hint P M
        = (Inr (first_slot cfg b),
           P\<lparr>currentBlock := b, currentSlot := first_slot cfg b + sizeof_slot cfg,
             lastSlot := limit_slot cfg b\<rparr>,
           M\<lparr>next_at := (next_at M)(b := currentBlock P), sysnew := rs\<rparr>)
      \<and> (valid_config cfg \<and> block_ok cfg b \<longrightarrow> first_slot cfg b < limit_slot cfg b))"
proof (intro conjI impI)
  assume "freeSlots P \<noteq> 0"
  then show "allocate cfg n hint P M
        = (Inr (freeSlots P), P\<lparr>freeSlots := next_at M (freeSlots P)\<rparr>, M)"
    by (rule allocate_pop)
next
  assume "freeSlots P = 0 \<and> currentSlot P < lastSlot P"
  then show "allocate cfg n hint P M
        = (Inr (currentSlot P), P\<lparr>currentSlot := currentSlot P + sizeof_slot cfg\<rparr>, M)"
    by (simp add: allocate_bump)
next
  assume h: "freeSlots P = 0 \<and> \<not> currentSlot P < lastSlot P \<and> sysnew M = Some b # rs"
  then show "allocateBlock cfg P M
        = (Inr (),
           P\<lparr>currentBlock := b, currentSlot := first_slot cfg b, lastSlot := limit_slot cfg b\<rparr>,
           M\<lparr>next_at := (next_at M)(b := currentBlock P), sysnew := rs\<rparr>)"
    by (simp add: allocateBlock_def operator_new_def Let_def first_slot_def limit_slot_def)
  from h show "allocate cfg n hint P M
        = (Inr (first_slot cfg b),
           P\<lparr>currentBlock := b, currentSlot := first_slot cfg b + sizeof_slot cfg,
             lastSlot := limit_slot cfg b\<rparr>,
           M\<lparr>next_at := (next_at M)(b := currentBlock P), sysnew := rs\<rparr>)"
    by (simp add: allocate_grow)
next
  assume "valid_config cfg \<and> block_ok cfg b"
  then show "first_slot cfg b < limit_slot cfg b"
    by (simp add: first_slot_below_limit)
qed

theorem allocate_order_witness:
  "freeSlots (cpool client_A) \<noteq> 0
   \<and> allocate cfg_int 1 0 (cpool client_A) (cmach client_A)
       = (Inr 4104, (cpool client_A)\<lparr>freeSlots := 0\<rparr>, cmach client_A)
   \<and> freeSlots (cpool client_B) = 0 \<and> currentSlot (cpool client_B) < lastSlot (cpool client_B)
   \<and> allocate cfg_int 1 0 (cpool client_B) (cmach client_B)
       = (Inr 4128, (cpool client_B)\<lparr>currentSlot := 4136\<rparr>, cmach client_B)
   \<and> valid_config cfg_int \<and> block_ok cfg_int 4096
   \<and> allocate cfg_int 1 0 MemoryPool_default (cmach (start mem0 [Some 4096]))
       = (Inr 4104,
          \<lparr>currentBlock = 4096, currentSlot = 4112, lastSlot = 8185, freeSlots = 0\<rparr>,
          \<lparr>next_at = mem0(4096 := 0), sysnew = [], deleted = [], dtor_calls = []\<rparr>)
   \<and> first_slot cfg_int 4096 < limit_slot cfg_int 4096"
proof -
  note a = allocate_order[of "cpool client_A" cfg_int 1 0 "cmach client_A"]
  note b = allocate_order[of "cpool client_B" cfg_int 1 0 "cmach client_B"]
  note c = allocate_order[of MemoryPool_default cfg_int 1 0 "cmach (start mem0 [Some 4096])"
      4096 "[]"]
  have bo: "block_ok cfg_int 4096"
    by (simp add: block_ok_def cfg_int_def alignof_ptr_def)
  have f: "first_slot cfg_int 4096 = 4104" "limit_slot cfg_int 4096 = 8185"
    by (simp_all add: first_slot_def limit_slot_def cfg_int_def sizeof_ptr_def padPointer_def)
  have ss: "sizeof_slot cfg_int = 8" by (simp add: cfg_int_def)
  have 1: "allocate cfg_int 1 0 (cpool client_A) (cmach client_A)
       = (Inr 4104, (cpool client_A)\<lparr>freeSlots := 0\<rparr>, cmach client_A)"
    using a by (simp add: client_A_def)
  have 2: "allocate cfg_int 1 0 (cpool client_B) (cmach client_B)
       = (Inr 4128, (cpool client_B)\<lparr>currentSlot := 4136\<rparr>, cmach client_B)"
    using b by (simp add: client_B_def ss)
  have 3: "allocate cfg_int 1 0 MemoryPool_default (cmach (start mem0 [Some 4096]))
       = (Inr 4104,
          \<lparr>currentBlock = 4096, currentSlot = 4112, lastSlot = 8185, freeSlots = 0\<rparr>,
          \<lparr>next_at = mem0(4096 := 0), sysnew = [], deleted = [], dtor_calls = []\<rparr>)"
    using c by (simp add: MemoryPool_default_def start_def f ss)
  have 4: "first_slot cfg_int 4096 < limit_slot cfg_int 4096"
    using c valid_config_int bo by (simp add: MemoryPool_default_def start_def)
  show ?thesis
    using 1 2 3 4 valid_config_int bo by (simp add: client_A_def client_B_def)
qed

end
